theory Spec2Isabelle
  imports Main "HOL-Library.Sublist"
begin

section \<open>Strings of the front end\<close>

text \<open>
  A JavaScript string is a sequence of UTF-16 code units. A code unit is modelled as a
  natural number and a string as a list of code units; \<open>js\<close> turns an ASCII literal into
  such a string.
\<close>

type_synonym codeunit = nat
type_synonym jsstring = "codeunit list"

definition js :: "string \<Rightarrow> jsstring" where
  "js s = map of_char s"

text \<open>
  \<open>String.prototype.trim\<close> strips the code points of ECMAScript's WhiteSpace and
  LineTerminator productions: TAB, LF, VT, FF, CR, SPACE, NBSP (U+00A0), U+1680,
  U+2000..U+200A, U+2028, U+2029, U+202F, U+205F, U+3000 and U+FEFF.
\<close>

definition isStrWhiteSpaceChar :: "codeunit \<Rightarrow> bool" where
  "isStrWhiteSpaceChar c =
     (c \<in> set [9, 10, 11, 12, 13, 32, 160, 5760, 8232, 8233, 8239, 8287, 12288, 65279]
      \<or> (8192 \<le> c \<and> c \<le> 8202))"

definition str_trim :: "jsstring \<Rightarrow> jsstring" where
  "str_trim s = rev (dropWhile isStrWhiteSpaceChar (rev (dropWhile isStrWhiteSpaceChar s)))"

text \<open>The global replacement of the non-breaking space: every U+00A0 becomes U+0020.\<close>

definition replace_nbsp :: "jsstring \<Rightarrow> jsstring" where
  "replace_nbsp s = map (\<lambda>c. if c = 160 then 32 else c) s"

text \<open>
  \<open>String.prototype.toLowerCase\<close> is a built-in of the host: the functions below take it
  as the parameter \<open>lower\<close>. The instance \<open>toLowerCase\<close> is the built-in on the Basic Latin
  and Latin-1 Supplement blocks (U+0000..U+00FF): A..Z, U+00C0..U+00D6 and U+00D8..U+00DE
  move up by 32, every other code unit of these blocks stays. Code units above U+00FF are
  outside its table and are left as they are.
\<close>

definition lowerUnit :: "codeunit \<Rightarrow> codeunit" where
  "lowerUnit c =
     (if (65 \<le> c \<and> c \<le> 90) \<or> (192 \<le> c \<and> c \<le> 222 \<and> c \<noteq> 215) then c + 32 else c)"

definition toLowerCase :: "jsstring \<Rightarrow> jsstring" where
  "toLowerCase s = map lowerUnit s"

section \<open>Normalizer (src/frontend/src/lib/parse.ts)\<close>

record NormalizeOptions =
  trim :: bool
  caseInsensitive :: bool

text \<open>\<open>splitLines\<close>: the empty string gives no line; CRLF and CR become LF, then split at LF.\<close>

fun replace_crlf :: "jsstring \<Rightarrow> jsstring" where
  "replace_crlf [] = []"
| "replace_crlf [c] = (if c = 13 then [10] else [c])"
| "replace_crlf (c # d # cs) =
     (if c = 13 then (if d = 10 then 10 # replace_crlf cs else 10 # replace_crlf (d # cs))
      else c # replace_crlf (d # cs))"

fun split_lf :: "jsstring \<Rightarrow> jsstring list" where
  "split_lf [] = [[]]"
| "split_lf (c # cs) =
     (if c = 10 then [] # split_lf cs
      else (case split_lf cs of [] \<Rightarrow> [[c]] | l # ls \<Rightarrow> (c # l) # ls))"

definition splitLines :: "jsstring \<Rightarrow> jsstring list" where
  "splitLines raw = (if raw = [] then [] else split_lf (replace_crlf raw))"

definition normalizeLine :: "(jsstring \<Rightarrow> jsstring) \<Rightarrow> NormalizeOptions \<Rightarrow> jsstring \<Rightarrow> jsstring" where
  "normalizeLine lower options line =
     (let result = line;
          result = replace_nbsp result;
          result = (if trim options then str_trim result else result);
          result = (if caseInsensitive options then lower result else result)
      in result)"

subsection \<open>Set and Map of the host\<close>

text \<open>
  A JavaScript \<open>Set\<close> iterates in insertion order and holds no element twice: it is the
  list of its elements in insertion order. A \<open>Map\<close> is the list of its entries in insertion
  order; \<open>set\<close> on a key already present replaces the value in place.
\<close>

type_synonym 'a jsset = "'a list"
type_synonym ('k, 'v) jsmap = "('k \<times> 'v) list"

definition Set_has :: "'a jsset \<Rightarrow> 'a \<Rightarrow> bool" where
  "Set_has s x = (x \<in> set s)"

definition Set_add :: "'a jsset \<Rightarrow> 'a \<Rightarrow> 'a jsset" where
  "Set_add s x = (if x \<in> set s then s else s @ [x])"

definition Set_size :: "'a jsset \<Rightarrow> nat" where
  "Set_size s = length s"

definition Map_get :: "('k, 'v) jsmap \<Rightarrow> 'k \<Rightarrow> 'v option" where
  "Map_get m k = map_of m k"

fun Map_set :: "('k, 'v) jsmap \<Rightarrow> 'k \<Rightarrow> 'v \<Rightarrow> ('k, 'v) jsmap" where
  "Map_set [] k v = [(k, v)]"
| "Map_set (p # ps) k v = (if fst p = k then (k, v) # ps else p # Map_set ps k v)"

subsection \<open>toUniqueSet\<close>

record UniqueSet =
  set_of :: "jsstring jsset"
  normalizedToOriginals :: "(jsstring, jsstring list) jsmap"
  totalCount :: nat
  uniqueCount :: nat

text \<open>
  One pass of the \<open>for\<close> loop over the state \<open>(set, normalizedToOriginals, totalCount)\<close>,
  written \<open>(s, m, n)\<close>.
\<close>

definition toUniqueSet_step ::
  "(jsstring \<Rightarrow> jsstring) \<Rightarrow> NormalizeOptions \<Rightarrow> jsstring
     \<Rightarrow> jsstring jsset \<times> (jsstring, jsstring list) jsmap \<times> nat
     \<Rightarrow> jsstring jsset \<times> (jsstring, jsstring list) jsmap \<times> nat" where
  "toUniqueSet_step lower options raw st =
     (case st of (s, m, n) \<Rightarrow>
        let normalized = normalizeLine lower options raw in
        if length normalized = 0 then (s, m, n)
        else
          let n = n + 1;
              s = (if \<not> Set_has s normalized then Set_add s normalized else s);
              arr = (case Map_get m normalized of Some a \<Rightarrow> a | None \<Rightarrow> []);
              arr = arr @ [raw];
              m = Map_set m normalized arr
          in (s, m, n))"

definition toUniqueSet :: "(jsstring \<Rightarrow> jsstring) \<Rightarrow> NormalizeOptions \<Rightarrow> jsstring list \<Rightarrow> UniqueSet" where
  "toUniqueSet lower options lines =
     (case fold (toUniqueSet_step lower options) lines ([], [], 0) of
        (s, m, n) \<Rightarrow>
          \<lparr>set_of = s, normalizedToOriginals = m, totalCount = n, uniqueCount = Set_size s\<rparr>)"

section \<open>Set Reconciler\<close>

definition setIntersection :: "'a jsset \<Rightarrow> 'a jsset \<Rightarrow> 'a jsset" where
  "setIntersection a b =
     (let smaller = (if Set_size a \<le> Set_size b then a else b);
          larger = (if Set_size a \<le> Set_size b then b else a)
      in fold (\<lambda>item result. if Set_has larger item then Set_add result item else result)
           smaller [])"

definition setDifference :: "'a jsset \<Rightarrow> 'a jsset \<Rightarrow> 'a jsset" where
  "setDifference a b =
     fold (\<lambda>item result. if \<not> Set_has b item then Set_add result item else result) a []"

text \<open>The \<open>results\<close> memo of the company-checking page.\<close>

record CompanyCheckingResult =
  aTotal :: nat
  bTotal :: nat
  aUnique :: nat
  bUnique :: nat
  matches :: "jsstring jsset"
  onlyA :: "jsstring jsset"
  onlyB :: "jsstring jsset"

definition results ::
  "(jsstring \<Rightarrow> jsstring) \<Rightarrow> NormalizeOptions \<Rightarrow> jsstring \<Rightarrow> jsstring \<Rightarrow> CompanyCheckingResult" where
  "results lower options debouncedA debouncedB =
     (let linesA = splitLines debouncedA;
          linesB = splitLines debouncedB;
          a = toUniqueSet lower options linesA;
          b = toUniqueSet lower options linesB
      in \<lparr>aTotal = totalCount a, bTotal = totalCount b,
          aUnique = uniqueCount a, bUnique = uniqueCount b,
          matches = setIntersection (set_of a) (set_of b),
          onlyA = setDifference (set_of a) (set_of b),
          onlyB = setDifference (set_of b) (set_of a)\<rparr>)"

section \<open>Auxiliary predicates of the statements\<close>

text \<open>A string that \<open>trim\<close> leaves alone: empty, or with no white space at either end.\<close>

definition trimmed :: "jsstring \<Rightarrow> bool" where
  "trimmed s = (s = [] \<or> (\<not> isStrWhiteSpaceChar (hd s) \<and> \<not> isStrWhiteSpaceChar (last s)))"

text \<open>A line made of white space and non-breaking spaces only (the empty line included).\<close>

definition blankLine :: "jsstring \<Rightarrow> bool" where
  "blankLine l = list_all isStrWhiteSpaceChar l"

definition allBlank :: "jsstring list \<Rightarrow> bool" where
  "allBlank ls = list_all blankLine ls"

section \<open>Cache read of the matching route (src/frontend/src/app/api/matching/route.ts, GET)\<close>

text \<open>
  A row of the table \<open>matching_summary\<close> with the columns the query reads. The columns
  \<open>filter_id\<close>, \<open>filter_name\<close> and the two counts may be NULL; \<open>created_at\<close> is of the
  column's ordered type.
\<close>

record 't SummaryRow =
  filter_id :: "jsstring option"
  filter_name :: "jsstring option"
  matching_companies :: "nat option"
  non_matching_pipedrive :: "nat option"
  created_at :: 't

datatype 't Database = CannotOpen | QueryFails | Table "'t SummaryRow list"

datatype RouteError = DatabaseConnectionFailed | QueryFailed

record 't PieData =
  running :: nat
  notActive :: nat
  filterId_of :: "jsstring option"
  filterName_of :: "jsstring option"
  hasData :: bool
  lastUpdated :: "'t option"

text \<open>
  The WHERE clause. An absent parameter, the string \<open>null\<close> and the empty string select
  the rows whose \<open>filter_id\<close> is NULL or empty; any other string selects the rows with
  that \<open>filter_id\<close>.
\<close>

definition where_filter :: "jsstring option \<Rightarrow> 't SummaryRow \<Rightarrow> bool" where
  "where_filter filterId row =
     (if filterId = None \<or> filterId = Some (js ''null'') \<or> filterId = Some []
      then filter_id row = None \<or> filter_id row = Some []
      else filter_id row = filterId)"

text \<open>
  \<open>ORDER BY created_at DESC\<close> as an insertion sort. SQL leaves the order among rows with
  equal \<open>created_at\<close> open; here the row written later comes first among them.
\<close>

fun insert_desc :: "('t::linorder) SummaryRow \<Rightarrow> 't SummaryRow list \<Rightarrow> 't SummaryRow list" where
  "insert_desc r [] = [r]"
| "insert_desc r (x # xs) =
     (if created_at x < created_at r then r # x # xs else x # insert_desc r xs)"

fun order_by_created_at_desc :: "('t::linorder) SummaryRow list \<Rightarrow> 't SummaryRow list" where
  "order_by_created_at_desc [] = []"
| "order_by_created_at_desc (r # rs) = insert_desc r (order_by_created_at_desc rs)"

text \<open>The head of a list of rows carries a greatest \<open>created_at\<close> of the list.\<close>

definition head_max :: "('t::linorder) SummaryRow list \<Rightarrow> bool" where
  "head_max xs = list_all (\<lambda>y. created_at y \<le> created_at (hd xs)) xs"

text \<open>\<open>db.get\<close> with \<open>LIMIT 1\<close>: the first row of the ordered selection, or none.\<close>

definition db_get :: "jsstring option \<Rightarrow> ('t::linorder) SummaryRow list \<Rightarrow> 't SummaryRow option" where
  "db_get filterId rows =
     (case take 1 (order_by_created_at_desc (filter (where_filter filterId) rows)) of
        [] \<Rightarrow> None
      | row # _ \<Rightarrow> Some row)"

definition GET_matching :: "('t::linorder) Database \<Rightarrow> jsstring option \<Rightarrow> RouteError + 't PieData" where
  "GET_matching db filterId =
     (case db of
        CannotOpen \<Rightarrow> Inl DatabaseConnectionFailed
      | QueryFails \<Rightarrow> Inl QueryFailed
      | Table rows \<Rightarrow>
          (case db_get filterId rows of
             None \<Rightarrow>
               Inr \<lparr>running = 0, notActive = 0, filterId_of = filterId, filterName_of = None,
                    hasData = False, lastUpdated = None\<rparr>
           | Some row \<Rightarrow>
               Inr \<lparr>running = (case matching_companies row of None \<Rightarrow> 0 | Some n \<Rightarrow> n),
                    notActive = (case non_matching_pipedrive row of None \<Rightarrow> 0 | Some n \<Rightarrow> n),
                    filterId_of = filterId, filterName_of = filter_name row,
                    hasData = True, lastUpdated = Some (created_at row)\<rparr>))"

section \<open>Back end\<close>

datatype error =
  InvalidReferenceError | FilterNotFoundError | ExternalFetchError | StorageError
  | ConcurrencyConflictError

subsection \<open>Filter reference\<close>

definition isDigit :: "char \<Rightarrow> bool" where
  "isDigit c = (c \<in> set ''0123456789'')"

text \<open>
  Modelled from the spec: the search behind \<open>resolveFilterReference\<close> (the back end's
  \<open>extract_filter_id_from_url\<close>, which is not among the sources). \<open>digitRunAfter lit s\<close>
  is the maximal run of digits right after the first occurrence of the literal \<open>lit\<close> in
  \<open>s\<close> that is followed by a digit; with the empty literal it is the first run of digits
  anywhere in \<open>s\<close>.
\<close>

fun digitRunAfter :: "string \<Rightarrow> string \<Rightarrow> string option" where
  "digitRunAfter lit [] = None"
| "digitRunAfter lit (c # cs) =
     (if take (length lit) (c # cs) = lit
         \<and> takeWhile isDigit (drop (length lit) (c # cs)) \<noteq> []
      then Some (takeWhile isDigit (drop (length lit) (c # cs)))
      else digitRunAfter lit cs)"

text \<open>
  Modelled from the spec: \<open>resolveFilterReference\<close> of the Filter Registry. The digits after
  a literal \<open>filters/\<close>, otherwise the digits of a \<open>filter_id=\<close> query parameter, otherwise
  the first run of digits; \<open>InvalidReferenceError\<close> when there is none.
\<close>

definition resolveFilterReference :: "string \<Rightarrow> error + string" where
  "resolveFilterReference reference =
     (case digitRunAfter ''filters/'' reference of
        Some d \<Rightarrow> Inr d
      | None \<Rightarrow>
          (case digitRunAfter ''filter_id='' reference of
             Some d \<Rightarrow> Inr d
           | None \<Rightarrow>
               (case digitRunAfter [] reference of
                  Some d \<Rightarrow> Inr d
                | None \<Rightarrow> Inl InvalidReferenceError)))"

text \<open>
  The vocabulary of the extraction rule, by position. \<open>digitsFollowAt lit s i\<close>: the
  literal \<open>lit\<close> stands at position \<open>i\<close> of \<open>s\<close> and a digit comes right after it.
  \<open>firstDigitsAt lit s i\<close>: \<open>i\<close> is the first such position. \<open>noDigitsAfter lit s\<close>: there is
  no such position. With the empty literal they speak of the digits anywhere in \<open>s\<close>.
\<close>

definition digitsFollowAt :: "string \<Rightarrow> string \<Rightarrow> nat \<Rightarrow> bool" where
  "digitsFollowAt lit s i =
     (take (length lit) (drop i s) = lit
      \<and> (case drop (i + length lit) s of [] \<Rightarrow> False | c # _ \<Rightarrow> isDigit c))"

definition firstDigitsAt :: "string \<Rightarrow> string \<Rightarrow> nat \<Rightarrow> bool" where
  "firstDigitsAt lit s i =
     (digitsFollowAt lit s i \<and> list_all (\<lambda>j. \<not> digitsFollowAt lit s j) [0..<i])"

definition noDigitsAfter :: "string \<Rightarrow> string \<Rightarrow> bool" where
  "noDigitsAfter lit s = list_all (\<lambda>j. \<not> digitsFollowAt lit s j) [0..<length s]"

subsection \<open>Result Cache and Matching Orchestrator\<close>

record ReconciliationSummary =
  filterId :: "string option"
  filterName :: "string option"
  sideACount :: nat
  sideBCount :: nat
  matchCount :: nat
  onlyACount :: nat
  onlyBCount :: nat
  computedAt :: nat

text \<open>
  Modelled from the spec: the Result Cache of the back end (its Python sources are not among
  the sources; the route only spawns them). The cache is an append-only log in write order;
  \<open>put\<close> appends a row and changes no earlier one; \<open>getLatest\<close> takes the row of the
  requested filter identity with the greatest \<open>computedAt\<close>, the last written among equal
  timestamps.
\<close>

type_synonym ResultCache = "ReconciliationSummary list"

definition put :: "ResultCache \<Rightarrow> ReconciliationSummary \<Rightarrow> ResultCache" where
  "put cache summary = cache @ [summary]"

fun latest_of :: "ReconciliationSummary list \<Rightarrow> ReconciliationSummary option" where
  "latest_of [] = None"
| "latest_of (r # rs) =
     (case latest_of rs of
        None \<Rightarrow> Some r
      | Some r' \<Rightarrow> if computedAt r' < computedAt r then Some r else Some r')"

definition getLatest :: "ResultCache \<Rightarrow> string option \<Rightarrow> ReconciliationSummary option" where
  "getLatest cache fid = latest_of (filter (\<lambda>r. filterId r = fid) cache)"

text \<open>
  The counts a reconciliation run hands to PERSIST, with the name of the filter.
\<close>

record ReconcileCounts =
  rc_filterName :: "string option"
  rc_sideA :: nat
  rc_sideB :: nat
  rc_matches :: nat
  rc_onlyA :: nat
  rc_onlyB :: nat

text \<open>
  Modelled from the spec: \<open>runMatching\<close> of the Matching Orchestrator (back-end code that
  is not among the sources). The state is the Filter Registry, of any type \<open>'r\<close>, and the
  Result Cache. A cache hit is taken when \<open>forceRefresh\<close> is not requested and
  \<open>getLatest\<close> has a summary for the identity: it returns that summary with
  \<open>fromCache = True\<close> and leaves the state as it is. Otherwise the run is recomputed: the
  parameter \<open>recompute\<close> stands for the states RESOLVE_FILTER, FETCH_ORGANIZATIONS and
  RECONCILE (the CRM pull, \<open>upsertFilter\<close> on the registry and the Set Reconciler), which
  end in an error or in the counts with the new registry; PERSIST then builds the summary
  with the wall-clock time \<open>now\<close> and \<open>put\<close>s it. A failed run persists nothing.
\<close>

definition runMatching ::
  "(string option \<Rightarrow> 'r \<Rightarrow> error + ReconcileCounts \<times> 'r) \<Rightarrow> nat \<Rightarrow> 'r \<times> ResultCache
     \<Rightarrow> string option \<Rightarrow> bool
     \<Rightarrow> error + (ReconciliationSummary \<times> bool) \<times> ('r \<times> ResultCache)" where
  "runMatching recompute now st fid forceRefresh =
     (case (if forceRefresh then None else getLatest (snd st) fid) of
        Some summary \<Rightarrow> Inr ((summary, True), st)
      | None \<Rightarrow>
          (case recompute fid (fst st) of
             Inl e \<Rightarrow> Inl e
           | Inr (counts, registry) \<Rightarrow>
               let summary = \<lparr>filterId = fid, filterName = rc_filterName counts,
                              sideACount = rc_sideA counts, sideBCount = rc_sideB counts,
                              matchCount = rc_matches counts, onlyACount = rc_onlyA counts,
                              onlyBCount = rc_onlyB counts, computedAt = now\<rparr>
               in Inr ((summary, False), (registry, put (snd st) summary))))"

text \<open>The wall clock is monotonic: no stored summary is later than \<open>now\<close>.\<close>

definition cacheNotAfter :: "ResultCache \<Rightarrow> nat \<Rightarrow> bool" where
  "cacheNotAfter cache now = list_all (\<lambda>r. computedAt r \<le> now) cache"

section \<open>Lemmas\<close>

subsection \<open>Host Map and the loop of toUniqueSet\<close>

lemma map_of_Map_set: "map_of (Map_set m k v) = (map_of m)(k \<mapsto> v)"
  by (induction m) (auto simp: fun_eq_iff)

lemma map_fst_Map_set:
  "map fst (Map_set m k v) = (if k \<in> set (map fst m) then map fst m else map fst m @ [k])"
  by (induction m) auto

lemma sum_lengths_Map_set:
  "sum_list (map (\<lambda>p. length (snd p)) (Map_set m k ((case map_of m k of Some a \<Rightarrow> a | None \<Rightarrow> []) @ [raw])))
     = Suc (sum_list (map (\<lambda>p. length (snd p)) m))"
  by (induction m) auto

lemma toUniqueSet_loop_inv:
  assumes "fold (toUniqueSet_step lower options) lines ([], [], 0) = (s, m, n)"
  shows "map fst m = s \<and> distinct s
       \<and> set s = normalizeLine lower options ` set lines - {[]}
       \<and> n = length (filter (\<lambda>l. normalizeLine lower options l \<noteq> []) lines)
       \<and> (\<forall>k. map_of m k = (if k \<in> set s
                 then Some (filter (\<lambda>r. normalizeLine lower options r = k) lines) else None))
       \<and> sum_list (map (\<lambda>p. length (snd p)) m) = n"
  using assms
proof (induction lines arbitrary: s m n rule: rev_induct)
  case Nil
  then show ?case by simp
next
  case (snoc x xs)
  obtain s0 m0 n0 where st0: "fold (toUniqueSet_step lower options) xs ([], [], 0) = (s0, m0, n0)"
    by (cases "fold (toUniqueSet_step lower options) xs ([], [], 0)") auto
  note ih = snoc.IH[OF st0]
  from snoc.prems st0 have step: "toUniqueSet_step lower options x (s0, m0, n0) = (s, m, n)"
    by simp
  show ?case
  proof (cases "normalizeLine lower options x = []")
    case True
    with step have "s = s0" "m = m0" "n = n0"
      by (simp_all add: toUniqueSet_step_def)
    with ih True show ?thesis by auto
  next
    case False
    let ?k = "normalizeLine lower options x"
    from step False have s: "s = (if ?k \<in> set s0 then s0 else s0 @ [?k])"
      and m: "m = Map_set m0 ?k ((case map_of m0 ?k of Some a \<Rightarrow> a | None \<Rightarrow> []) @ [x])"
      and n: "n = Suc n0"
      by (auto simp add: toUniqueSet_step_def Set_has_def Set_add_def Map_get_def Let_def)
    have 1: "map fst m = s" using ih s m by (simp add: map_fst_Map_set)
    have 2: "distinct s" using ih s by auto
    have 3: "set s = normalizeLine lower options ` set (xs @ [x]) - {[]}"
      using ih s False by auto
    have 4: "n = length (filter (\<lambda>l. normalizeLine lower options l \<noteq> []) (xs @ [x]))"
      using ih n False by simp
    have ih5: "map_of m0 k = (if k \<in> set s0
                 then Some (filter (\<lambda>r. normalizeLine lower options r = k) xs) else None)" for k
      using ih by blast
    have mem: "k \<in> set s0 \<longleftrightarrow> filter (\<lambda>r. normalizeLine lower options r = k) xs \<noteq> [] \<and> k \<noteq> []" for k
    proof -
      have "k \<in> set s0 \<longleftrightarrow> k \<in> normalizeLine lower options ` set xs - {[]}" using ih by simp
      also have "\<dots> \<longleftrightarrow> filter (\<lambda>r. normalizeLine lower options r = k) xs \<noteq> [] \<and> k \<noteq> []"
        by (auto simp: filter_empty_conv)
      finally show ?thesis .
    qed
    have 5: "map_of m k = (if k \<in> set s
                 then Some (filter (\<lambda>r. normalizeLine lower options r = k) (xs @ [x])) else None)" for k
    proof (cases "k = ?k")
      case True
      have "k \<in> set s" using s True by simp
      moreover have "map_of m k = Some ((case map_of m0 ?k of Some a \<Rightarrow> a | None \<Rightarrow> []) @ [x])"
        unfolding m map_of_Map_set using True by simp
      moreover have "(case map_of m0 ?k of Some a \<Rightarrow> a | None \<Rightarrow> [])
                       = filter (\<lambda>r. normalizeLine lower options r = ?k) xs"
        using ih5[of ?k] mem[of ?k] False by simp
      ultimately show ?thesis using True by simp
    next
      case ne: False
      have "map_of m k = map_of m0 k" unfolding m map_of_Map_set using ne by simp
      moreover have "k \<in> set s \<longleftrightarrow> k \<in> set s0" using s ne by auto
      ultimately show ?thesis using ih5[of k] ne by auto
    qed
    have 6: "sum_list (map (\<lambda>p. length (snd p)) m) = n"
      unfolding m sum_lengths_Map_set using ih n by simp
    from 1 2 3 4 5 6 show ?thesis by blast
  qed
qed

subsection \<open>Set loops\<close>

lemma set_fold_Set_add:
  "set (fold (\<lambda>item result. if P item then Set_add result item else result) xs acc)
     = set acc \<union> {x \<in> set xs. P x}"
  by (induction xs arbitrary: acc) (auto simp: Set_add_def)

lemma distinct_fold_Set_add:
  "distinct acc \<Longrightarrow>
   distinct (fold (\<lambda>item result. if P item then Set_add result item else result) xs acc)"
  by (induction xs arbitrary: acc) (auto simp: Set_add_def)

lemma fold_Set_add_filter:
  "distinct (acc @ xs) \<Longrightarrow>
   fold (\<lambda>item result. if P item then Set_add result item else result) xs acc = acc @ filter P xs"
  by (induction xs arbitrary: acc) (auto simp: Set_add_def)

lemma set_setIntersection: "set (setIntersection a b) = set a \<inter> set b"
  by (auto simp: setIntersection_def Set_has_def Set_size_def set_fold_Set_add Let_def)

lemma set_setDifference: "set (setDifference a b) = set a - set b"
  by (auto simp: setDifference_def Set_has_def set_fold_Set_add)

lemma distinct_setIntersection: "distinct (setIntersection a b)"
  by (simp add: setIntersection_def Let_def distinct_fold_Set_add)

lemma distinct_setDifference: "distinct (setDifference a b)"
  by (simp add: setDifference_def distinct_fold_Set_add)

lemma setDifference_filter: "distinct a \<Longrightarrow> setDifference a b = filter (\<lambda>x. x \<notin> set b) a"
  by (simp add: setDifference_def Set_has_def fold_Set_add_filter)

lemma length_partition:
  assumes "distinct a"
  shows "length (setIntersection a b) + length (setDifference a b) = length a"
proof -
  have "length (setIntersection a b) = card (set a \<inter> set b)"
    using distinct_card[OF distinct_setIntersection, of a b] by (simp add: set_setIntersection)
  moreover have "length (setDifference a b) = card (set a - set b)"
    using distinct_card[OF distinct_setDifference, of a b] by (simp add: set_setDifference)
  moreover have "card (set a \<inter> set b) + card (set a - set b) = card (set a)"
    by (metis List.finite_set card_Diff_subset_Int card_mono diff_add_inverse2 finite_Int inf_le1 le_add_diff_inverse2 add.commute)
  ultimately show ?thesis using distinct_card[OF assms] by simp
qed

subsection \<open>Trimming and normalizeLine\<close>

lemma trimmed_iff:
  "trimmed s \<longleftrightarrow> s = [] \<or> (\<not> isStrWhiteSpaceChar (hd s) \<and> \<not> isStrWhiteSpaceChar (last s))"
  by (simp add: trimmed_def)

lemma str_trim_trimmed: "trimmed (str_trim s)"
proof (cases "dropWhile isStrWhiteSpaceChar s")
  case Nil
  show ?thesis unfolding str_trim_def Nil by (simp add: trimmed_iff)
next
  case (Cons x t)
  have nx: "\<not> isStrWhiteSpaceChar x"
    using Cons hd_dropWhile[of isStrWhiteSpaceChar s] by auto
  let ?r = "dropWhile isStrWhiteSpaceChar (rev t @ [x])"
  have r: "?r \<noteq> []" "last ?r = x"
    using nx by (auto simp: dropWhile_append)
  have "\<not> isStrWhiteSpaceChar (hd ?r)"
    using r(1) hd_dropWhile by blast
  with r nx show ?thesis
    by (simp add: str_trim_def trimmed_iff Cons hd_rev last_rev)
qed

lemma trimmed_str_trim: "trimmed s \<Longrightarrow> str_trim s = s"
proof (cases s)
  case Nil
  then show ?thesis by (simp add: str_trim_def)
next
  case (Cons x t)
  assume "trimmed s"
  with Cons have h: "\<not> isStrWhiteSpaceChar x" and l: "\<not> isStrWhiteSpaceChar (last s)"
    by (auto simp: trimmed_iff)
  have "hd (rev s) = last s" using Cons by (simp add: hd_rev)
  with l have "dropWhile isStrWhiteSpaceChar (rev s) = rev s"
    by (simp add: dropWhile_eq_self_iff)
  moreover have "dropWhile isStrWhiteSpaceChar s = s" using Cons h by simp
  ultimately show ?thesis by (simp add: str_trim_def)
qed

lemma str_trim_fixed_iff: "str_trim s = s \<longleftrightarrow> trimmed s"
  using str_trim_trimmed[of s] trimmed_str_trim[of s] by auto

lemma str_trim_idem: "str_trim (str_trim s) = str_trim s"
  by (simp add: trimmed_str_trim str_trim_trimmed)

lemma set_str_trim: "set (str_trim s) \<subseteq> set s"
proof -
  have "set (str_trim s) \<subseteq> set (dropWhile isStrWhiteSpaceChar s)"
    unfolding str_trim_def set_rev using set_dropWhileD by fastforce
  also have "\<dots> \<subseteq> set s" using set_dropWhileD by fastforce
  finally show ?thesis .
qed

lemma nbsp_notin_replace: "160 \<notin> set (replace_nbsp s)"
  by (auto simp: replace_nbsp_def)

lemma replace_nbsp_id: "160 \<notin> set s \<Longrightarrow> replace_nbsp s = s"
  by (induction s) (auto simp: replace_nbsp_def)

lemma normalizeLine_idem_gen:
  assumes H1: "\<And>s. lower (lower s) = lower s"
    and H2: "\<And>s. 160 \<notin> set s \<Longrightarrow> 160 \<notin> set (lower s)"
    and H3: "\<And>s. str_trim s = s \<Longrightarrow> str_trim (lower s) = lower s"
  shows "normalizeLine lower options (normalizeLine lower options x) = normalizeLine lower options x"
proof -
  let ?r = "replace_nbsp x"
  have a: "160 \<notin> set ?r" by (rule nbsp_notin_replace)
  have b: "160 \<notin> set (str_trim ?r)" using a set_str_trim by blast
  show ?thesis
    by (cases "trim options"; cases "caseInsensitive options")
       (simp_all add: normalizeLine_def replace_nbsp_id a b H1 H2 H3 str_trim_idem)
qed

subsection \<open>The Latin-1 instance of toLowerCase\<close>

lemma toLowerCase_map: "toLowerCase s = map lowerUnit s"
  by (simp add: toLowerCase_def)

lemma lowerUnit_idem: "lowerUnit (lowerUnit c) = lowerUnit c"
  by (auto simp: lowerUnit_def)

lemma lowerUnit_ws: "isStrWhiteSpaceChar (lowerUnit c) = isStrWhiteSpaceChar c"
  by (auto simp: lowerUnit_def isStrWhiteSpaceChar_def)

lemma lowerUnit_nbsp: "lowerUnit c = 160 \<longleftrightarrow> c = 160"
  by (auto simp: lowerUnit_def)

lemma toLowerCase_idem: "toLowerCase (toLowerCase s) = toLowerCase s"
  by (simp add: toLowerCase_map lowerUnit_idem)

lemma toLowerCase_nbsp: "160 \<notin> set s \<Longrightarrow> 160 \<notin> set (toLowerCase s)"
  by (metis (no_types) toLowerCase_map imageE list.set_map lowerUnit_nbsp)

lemma toLowerCase_trim: "str_trim (toLowerCase s) = toLowerCase (str_trim s)"
proof -
  have c: "isStrWhiteSpaceChar \<circ> lowerUnit = isStrWhiteSpaceChar"
    by (simp add: fun_eq_iff lowerUnit_ws)
  show ?thesis
    by (simp add: str_trim_def toLowerCase_map dropWhile_map rev_map c)
qed

lemma toLowerCase_trim_fixed: "str_trim s = s \<Longrightarrow> str_trim (toLowerCase s) = toLowerCase s"
  by (simp add: toLowerCase_trim)

lemma toLowerCase_Nil: "toLowerCase [] = []"
  by (simp add: toLowerCase_def)

subsection \<open>Blank lines\<close>

lemma blank_normalize:
  assumes "list_all isStrWhiteSpaceChar l" "trim options" "lower [] = []"
  shows "normalizeLine lower options l = []"
proof -
  have "list_all isStrWhiteSpaceChar (replace_nbsp l)"
    using assms(1) by (induction l) (auto simp: replace_nbsp_def isStrWhiteSpaceChar_def)
  then have d: "dropWhile isStrWhiteSpaceChar (replace_nbsp l) = []"
    unfolding list_all_iff dropWhile_eq_Nil_conv .
  have "str_trim (replace_nbsp l) = []" unfolding str_trim_def d by simp
  with assms show ?thesis by (simp add: normalizeLine_def)
qed

lemma toLowerCase_nonempty: "s \<noteq> [] \<Longrightarrow> toLowerCase s \<noteq> []"
  by (simp add: toLowerCase_def)

lemma normalize_untrimmed_nonempty:
  assumes "\<not> trim options" "l \<noteq> []" "\<forall>s. s \<noteq> [] \<longrightarrow> lower s \<noteq> []"
  shows "normalizeLine lower options l \<noteq> []"
proof -
  have "replace_nbsp l \<noteq> []" using assms(2) by (simp add: replace_nbsp_def)
  with assms(1,3) show ?thesis by (simp add: normalizeLine_def Let_def)
qed

subsection \<open>Ordering of the cache read\<close>

lemma set_insert_desc: "set (insert_desc r xs) = insert r (set xs)"
  by (induction xs) auto

lemma set_order_by: "set (order_by_created_at_desc rs) = set rs"
  by (induction rs) (simp_all add: set_insert_desc)

lemma insert_desc_not_Nil: "insert_desc r xs \<noteq> []"
  by (cases xs) simp_all

lemma head_max_insert_desc:
  assumes "head_max xs"
  shows "head_max (insert_desc r xs)"
proof (cases xs)
  case Nil
  then show ?thesis by (simp add: head_max_def)
next
  case (Cons x xs')
  from assms Cons have m: "\<And>y. y \<in> set xs' \<Longrightarrow> created_at y \<le> created_at x"
    by (simp add: head_max_def list_all_iff)
  show ?thesis
  proof (cases "created_at x < created_at r")
    case True
    have "created_at y \<le> created_at r" if "y \<in> set xs'" for y
    proof -
      from m that have "created_at y \<le> created_at x" by blast
      also have "created_at x \<le> created_at r" using True by (rule less_imp_le)
      finally show ?thesis .
    qed
    moreover have "created_at x \<le> created_at r" using True by (rule less_imp_le)
    ultimately show ?thesis using True
      unfolding Cons head_max_def list_all_iff by simp
  next
    case False
    then have "created_at r \<le> created_at x" by (simp add: not_less)
    with m False show ?thesis
      unfolding Cons head_max_def list_all_iff by (simp add: set_insert_desc)
  qed
qed

lemma head_max_order_by: "head_max (order_by_created_at_desc rs)"
proof (induction rs)
  case Nil
  show ?case by (simp add: head_max_def)
next
  case (Cons r rs)
  then show ?case by (simp add: head_max_insert_desc)
qed

lemma order_by_Nil_iff: "order_by_created_at_desc xs = [] \<longleftrightarrow> xs = []"
  by (cases xs) (simp_all add: insert_desc_not_Nil)

lemma db_get_None: "db_get fid rows = None \<longleftrightarrow> filter (where_filter fid) rows = []"
proof (cases "order_by_created_at_desc (filter (where_filter fid) rows)")
  case Nil
  then show ?thesis using order_by_Nil_iff[of "filter (where_filter fid) rows"]
    by (simp add: db_get_def)
next
  case (Cons a list)
  then show ?thesis using order_by_Nil_iff[of "filter (where_filter fid) rows"]
    by (simp add: db_get_def)
qed

lemma db_get_Some:
  assumes "db_get fid rows = Some row"
  shows "row \<in> set rows \<and> where_filter fid row
       \<and> (\<forall>r\<in>set rows. where_filter fid r \<longrightarrow> created_at r \<le> created_at row)"
proof -
  let ?sel = "filter (where_filter fid) rows"
  let ?ord = "order_by_created_at_desc ?sel"
  from assms obtain rest where ord: "?ord = row # rest"
    by (cases ?ord) (simp_all add: db_get_def)
  then have "row \<in> set ?ord" by simp
  then have mem: "row \<in> set ?sel" by (simp only: set_order_by)
  have "\<forall>y\<in>set ?ord. created_at y \<le> created_at row"
    using head_max_order_by[of ?sel] unfolding head_max_def list_all_iff ord by simp
  then have "\<forall>y\<in>set ?sel. created_at y \<le> created_at row" by (simp only: set_order_by)
  with mem show ?thesis by simp
qed

subsection \<open>Filter reference\<close>

lemma digitRunAfter_Some:
  "digitRunAfter lit s = Some d \<Longrightarrow>
     d \<noteq> [] \<and> list_all isDigit d
     \<and> (\<exists>pre post. s = pre @ lit @ d @ post \<and> (post = [] \<or> \<not> isDigit (hd post)))"
proof (induction s)
  case Nil
  then show ?case by simp
next
  case (Cons c cs)
  let ?s = "c # cs"
  show ?case
  proof (cases "take (length lit) ?s = lit \<and> takeWhile isDigit (drop (length lit) ?s) \<noteq> []")
    case True
    with Cons.prems have d: "d = takeWhile isDigit (drop (length lit) ?s)" by simp
    have "?s = take (length lit) ?s @ drop (length lit) ?s" by simp
    also have "\<dots> = lit @ (takeWhile isDigit (drop (length lit) ?s) @ dropWhile isDigit (drop (length lit) ?s))"
      using True by simp
    finally have "?s = [] @ lit @ d @ dropWhile isDigit (drop (length lit) ?s)"
      using d by simp
    moreover have "dropWhile isDigit (drop (length lit) ?s) = [] \<or>
        \<not> isDigit (hd (dropWhile isDigit (drop (length lit) ?s)))"
      using hd_dropWhile by blast
    moreover have "d \<noteq> []" using True d by simp
    moreover have "list_all isDigit d" unfolding d list_all_iff using set_takeWhileD by fastforce
    ultimately show ?thesis by blast
  next
    case False
    with Cons.prems have "digitRunAfter lit cs = Some d" by (simp split: if_splits)
    from Cons.IH[OF this] obtain pre post where
      "d \<noteq> []" "list_all isDigit d" "cs = pre @ lit @ d @ post" "post = [] \<or> \<not> isDigit (hd post)"
      by blast
    then have "c # cs = (c # pre) @ lit @ d @ post" by simp
    with \<open>d \<noteq> []\<close> \<open>list_all isDigit d\<close> \<open>post = [] \<or> \<not> isDigit (hd post)\<close>
    show ?thesis by blast
  qed
qed

lemma digitRunAfter_has_digit:
  assumes "digitRunAfter lit s = Some d"
  shows "\<exists>c\<in>set s. isDigit c"
proof -
  from digitRunAfter_Some[OF assms] obtain pre post where
    d: "d \<noteq> []" "list_all isDigit d" and s: "s = pre @ lit @ d @ post" by blast
  from d have "isDigit (hd d)" "hd d \<in> set d" by (cases d; simp)+
  with s show ?thesis by auto
qed

lemma digitRunAfter_Nil_None: "digitRunAfter [] s = None \<longleftrightarrow> (\<forall>c\<in>set s. \<not> isDigit c)"
  by (induction s) auto

lemma resolve_fails_iff:
  "resolveFilterReference r = Inl e \<longleftrightarrow> e = InvalidReferenceError \<and> (\<forall>c\<in>set r. \<not> isDigit c)"
proof
  assume "resolveFilterReference r = Inl e"
  then have "e = InvalidReferenceError" "digitRunAfter [] r = None"
    by (auto simp: resolveFilterReference_def split: option.splits)
  then show "e = InvalidReferenceError \<and> (\<forall>c\<in>set r. \<not> isDigit c)"
    by (simp add: digitRunAfter_Nil_None)
next
  assume a: "e = InvalidReferenceError \<and> (\<forall>c\<in>set r. \<not> isDigit c)"
  then have "digitRunAfter lit r = None" for lit
    using digitRunAfter_has_digit[of lit r] by (cases "digitRunAfter lit r") auto
  with a show "resolveFilterReference r = Inl e"
    by (simp add: resolveFilterReference_def)
qed

lemma resolve_digits:
  assumes "resolveFilterReference r = Inr d"
  shows "d \<noteq> [] \<and> list_all isDigit d"
proof -
  from assms obtain lit where "digitRunAfter lit r = Some d"
    by (auto simp: resolveFilterReference_def split: option.splits)
  from digitRunAfter_Some[OF this] show ?thesis by blast
qed

text \<open>The search by position.\<close>

lemma digitsFollowAt_Nil: "\<not> digitsFollowAt lit [] i"
  by (simp add: digitsFollowAt_def)

lemma digitsFollowAt_Suc: "digitsFollowAt lit (c # cs) (Suc i) = digitsFollowAt lit cs i"
  by (simp add: digitsFollowAt_def)

lemma digitsFollowAt_0:
  "digitsFollowAt lit s 0 \<longleftrightarrow>
     take (length lit) s = lit \<and> takeWhile isDigit (drop (length lit) s) \<noteq> []"
  by (cases "drop (length lit) s") (simp_all add: digitsFollowAt_def)

lemma digitsFollowAt_less: "digitsFollowAt lit s i \<Longrightarrow> i < length s"
  by (cases "i < length s") (simp_all add: digitsFollowAt_def)

lemma digitRunAfter_first:
  assumes "digitsFollowAt lit s i" and "\<And>j. j < i \<Longrightarrow> \<not> digitsFollowAt lit s j"
  shows "digitRunAfter lit s = Some (takeWhile isDigit (drop (i + length lit) s))"
  using assms
proof (induction s arbitrary: i)
  case Nil
  then show ?case by (simp add: digitsFollowAt_Nil)
next
  case (Cons c cs)
  show ?case
  proof (cases i)
    case 0
    from Cons.prems(1) have "digitsFollowAt lit (c # cs) 0" unfolding 0 .
    then have c0: "take (length lit) (c # cs) = lit
        \<and> takeWhile isDigit (drop (length lit) (c # cs)) \<noteq> []"
      unfolding digitsFollowAt_0 .
    have "digitRunAfter lit (c # cs) = Some (takeWhile isDigit (drop (length lit) (c # cs)))"
      by (subst digitRunAfter.simps(2)) (rule if_P[OF c0])
    then show ?thesis unfolding 0 by (simp only: add_0)
  next
    case (Suc k)
    have n0: "\<not> digitsFollowAt lit (c # cs) 0" using Cons.prems(2)[of 0] Suc by simp
    then have "\<not> (take (length lit) (c # cs) = lit
        \<and> takeWhile isDigit (drop (length lit) (c # cs)) \<noteq> [])"
      unfolding digitsFollowAt_0 .
    then have rec: "digitRunAfter lit (c # cs) = digitRunAfter lit cs"
      by (subst digitRunAfter.simps(2)) (rule if_not_P)
    have k: "digitsFollowAt lit cs k" using Cons.prems(1) Suc by (simp add: digitsFollowAt_Suc)
    have "\<not> digitsFollowAt lit cs j" if "j < k" for j
      using Cons.prems(2)[of "Suc j"] that Suc by (simp add: digitsFollowAt_Suc)
    from Cons.IH[OF k this] rec Suc show ?thesis by simp
  qed
qed

lemma digitRunAfter_none:
  assumes "\<And>j. \<not> digitsFollowAt lit s j"
  shows "digitRunAfter lit s = None"
  using assms
proof (induction s)
  case Nil
  show ?case by simp
next
  case (Cons c cs)
  have n0: "\<not> digitsFollowAt lit (c # cs) 0" by (rule Cons.prems)
  then have "\<not> (take (length lit) (c # cs) = lit
      \<and> takeWhile isDigit (drop (length lit) (c # cs)) \<noteq> [])"
    unfolding digitsFollowAt_0 .
  then have rec: "digitRunAfter lit (c # cs) = digitRunAfter lit cs"
    by (subst digitRunAfter.simps(2)) (rule if_not_P)
  have "\<not> digitsFollowAt lit cs j" for j
    using Cons.prems[of "Suc j"] by (simp add: digitsFollowAt_Suc)
  from Cons.IH[OF this] rec show ?case by simp
qed

lemma firstDigitsAt_iff:
  "firstDigitsAt lit s i \<longleftrightarrow> digitsFollowAt lit s i \<and> (\<forall>j<i. \<not> digitsFollowAt lit s j)"
proof -
  have "(\<forall>j\<in>set [0..<i]. \<not> digitsFollowAt lit s j) \<longleftrightarrow> (\<forall>j<i. \<not> digitsFollowAt lit s j)"
    by (metis atLeastLessThan_iff set_upt zero_le)
  then show ?thesis unfolding firstDigitsAt_def list_all_iff by (rule arg_cong)
qed

lemma noDigitsAfter_iff: "noDigitsAfter lit s \<longleftrightarrow> (\<forall>j. \<not> digitsFollowAt lit s j)"
proof
  assume a: "noDigitsAfter lit s"
  show "\<forall>j. \<not> digitsFollowAt lit s j"
  proof (intro allI notI)
    fix j assume d: "digitsFollowAt lit s j"
    then have "j < length s" by (rule digitsFollowAt_less)
    with a d show False by (simp add: noDigitsAfter_def list_all_iff)
  qed
next
  assume "\<forall>j. \<not> digitsFollowAt lit s j"
  then show "noDigitsAfter lit s" by (simp add: noDigitsAfter_def list_all_iff)
qed

lemma firstDigitsAt_exists:
  assumes "\<not> noDigitsAfter lit s"
  shows "\<exists>i. firstDigitsAt lit s i"
proof -
  from assms obtain j where j: "digitsFollowAt lit s j"
    unfolding noDigitsAfter_iff by blast
  define i where "i = (LEAST j. digitsFollowAt lit s j)"
  have a: "digitsFollowAt lit s i" unfolding i_def using j by (rule LeastI)
  have b: "\<not> digitsFollowAt lit s k" if "k < i" for k
    using that unfolding i_def by (rule not_less_Least)
  from a b have "firstDigitsAt lit s i" unfolding firstDigitsAt_iff by blast
  then show ?thesis ..
qed

lemma digitRunAfter_firstDigitsAt:
  "firstDigitsAt lit s i \<Longrightarrow>
     digitRunAfter lit s = Some (takeWhile isDigit (drop (i + length lit) s))"
  using digitRunAfter_first[of lit s i] by (simp add: firstDigitsAt_iff)

lemma digitRunAfter_noDigitsAfter: "noDigitsAfter lit s \<Longrightarrow> digitRunAfter lit s = None"
  using digitRunAfter_none[of lit s] by (simp add: noDigitsAfter_iff)

lemma noDigitsAfter_Nil_iff: "noDigitsAfter [] s \<longleftrightarrow> \<not> list_ex isDigit s"
proof -
  have "digitsFollowAt [] s j \<longleftrightarrow> j < length s \<and> isDigit (s ! j)" for j
  proof (cases "j < length s")
    case True
    then have "drop j s = s ! j # drop (Suc j) s" by (simp add: Cons_nth_drop_Suc)
    with True show ?thesis by (simp add: digitsFollowAt_def)
  next
    case False
    then show ?thesis by (simp add: digitsFollowAt_def)
  qed
  then have d: "\<And>j. digitsFollowAt [] s j \<longleftrightarrow> j < length s \<and> isDigit (s ! j)" .
  show ?thesis
  proof
    assume n: "noDigitsAfter [] s"
    show "\<not> list_ex isDigit s"
    proof
      assume "list_ex isDigit s"
      then obtain x where "x \<in> set s" "isDigit x" unfolding list_ex_iff by blast
      then obtain j where "j < length s" "s ! j = x" unfolding in_set_conv_nth by blast
      with \<open>isDigit x\<close> have "digitsFollowAt [] s j" unfolding d by simp
      with n show False unfolding noDigitsAfter_iff by blast
    qed
  next
    assume n: "\<not> list_ex isDigit s"
    have "\<not> digitsFollowAt [] s j" for j
    proof
      assume "digitsFollowAt [] s j"
      then have "j < length s" "isDigit (s ! j)" unfolding d by simp_all
      then have "list_ex isDigit s" unfolding list_ex_iff using nth_mem by blast
      with n show False ..
    qed
    then show "noDigitsAfter [] s" unfolding noDigitsAfter_iff by blast
  qed
qed

subsection \<open>Cache\<close>

lemma latest_of_snoc:
  "list_all (\<lambda>r. computedAt r \<le> computedAt s) rs \<Longrightarrow> latest_of (rs @ [s]) = Some s"
  by (induction rs) (auto split: option.splits)

lemma getLatest_put:
  assumes "cacheNotAfter cache (computedAt s)" "filterId s = fid"
  shows "getLatest (put cache s) fid = Some s"
proof -
  have "list_all (\<lambda>r. computedAt r \<le> computedAt s) (filter (\<lambda>r. filterId r = fid) cache)"
    using assms(1) by (auto simp: cacheNotAfter_def list_all_iff)
  then show ?thesis using assms(2) by (simp add: getLatest_def put_def latest_of_snoc)
qed

lemma runMatching_twice:
  assumes mono: "cacheNotAfter (snd st) now"
    and first: "runMatching recompute now st fid False = Inr ((s1, fc1), st1)"
  shows "runMatching recompute' now' st1 fid False = Inr ((s1, True), st1)"
proof (cases "getLatest (snd st) fid")
  case (Some s)
  with first have "s1 = s" "st1 = st" by (simp_all add: runMatching_def)
  with Some show ?thesis by (simp add: runMatching_def)
next
  case None
  with first obtain counts registry where
    rc: "recompute fid (fst st) = Inr (counts, registry)"
    by (auto simp: runMatching_def split: sum.splits)
  with None first have s1: "filterId s1 = fid" "computedAt s1 = now"
    and st1: "st1 = (registry, put (snd st) s1)"
    by (auto simp: runMatching_def Let_def)
  have "getLatest (snd st1) fid = Some s1"
    using getLatest_put[of "snd st" s1 fid] mono s1 st1 by simp
  then show ?thesis by (simp add: runMatching_def)
qed

subsection \<open>The name set of toUniqueSet\<close>

lemma toUniqueSet_props:
  fixes lower options lines
  defines "u \<equiv> toUniqueSet lower options lines"
  shows "map fst (normalizedToOriginals u) = set_of u"
    and "distinct (set_of u)"
    and "set (set_of u) = normalizeLine lower options ` set lines - {[]}"
    and "totalCount u = length (filter (\<lambda>l. normalizeLine lower options l \<noteq> []) lines)"
    and "uniqueCount u = length (set_of u)"
    and "Map_get (normalizedToOriginals u) k =
           (if k \<in> set (set_of u)
            then Some (filter (\<lambda>r. normalizeLine lower options r = k) lines) else None)"
    and "sum_list (map (\<lambda>p. length (snd p)) (normalizedToOriginals u)) = totalCount u"
proof -
  obtain s m n where st: "fold (toUniqueSet_step lower options) lines ([], [], 0) = (s, m, n)"
    by (cases "fold (toUniqueSet_step lower options) lines ([], [], 0)") auto
  have u: "u = \<lparr>set_of = s, normalizedToOriginals = m, totalCount = n, uniqueCount = length s\<rparr>"
    by (simp add: u_def toUniqueSet_def st Set_size_def)
  note inv = toUniqueSet_loop_inv[OF st]
  show "map fst (normalizedToOriginals u) = set_of u" using inv u by simp
  show "distinct (set_of u)" using inv u by simp
  show "set (set_of u) = normalizeLine lower options ` set lines - {[]}" using inv u by simp
  show "totalCount u = length (filter (\<lambda>l. normalizeLine lower options l \<noteq> []) lines)"
    using inv u by simp
  show "uniqueCount u = length (set_of u)" using u by simp
  show "Map_get (normalizedToOriginals u) k =
           (if k \<in> set (set_of u)
            then Some (filter (\<lambda>r. normalizeLine lower options r = k) lines) else None)"
    using inv u by (simp add: Map_get_def)
  show "sum_list (map (\<lambda>p. length (snd p)) (normalizedToOriginals u)) = totalCount u"
    using inv u by simp
qed

lemma find_filter_hd:
  "filter P xs \<noteq> [] \<Longrightarrow> find P xs = Some (hd (filter P xs))"
  by (induction xs) auto

lemma subseq_filter_self: "subseq (filter P xs) xs"
  by (induction xs) auto

lemma js_simps: "js [] = []" "js (c # cs) = of_char c # js cs"
  by (simp_all add: js_def)

lemmas eval_defs = js_simps normalizeLine_def replace_nbsp_def str_trim_def
  isStrWhiteSpaceChar_def toLowerCase_def lowerUnit_def
  toUniqueSet_def toUniqueSet_step_def Set_has_def Set_add_def Map_get_def Set_size_def Let_def
  setIntersection_def setDifference_def results_def splitLines_def

section \<open>Properties of the specification\<close>

text \<open>
  C1. For the name sets that \<open>toUniqueSet\<close> builds from any two line lists, the results of
  the page partition as stated: the matches are exactly the keys in both sets, the
  only-A and only-B sets are disjoint from the matches, matches and only-A together are the
  keys of A (the keys of its originals map), matches and only-B together are the keys of B,
  and the sizes of matches and only-A add up to the unique count of A (likewise for B).
\<close>

theorem reconcile_partition:
  "let a = toUniqueSet lower options linesA;
       b = toUniqueSet lower options linesB;
       ms = setIntersection (set_of a) (set_of b);
       oa = setDifference (set_of a) (set_of b);
       ob = setDifference (set_of b) (set_of a)
   in set ms = set (set_of a) \<inter> set (set_of b)
    \<and> set oa \<inter> set ms = {} \<and> set ob \<inter> set ms = {}
    \<and> set ms \<union> set oa = set (map fst (normalizedToOriginals a))
    \<and> set ms \<union> set ob = set (map fst (normalizedToOriginals b))
    \<and> set (map fst (normalizedToOriginals a)) = set (set_of a)
    \<and> set (map fst (normalizedToOriginals b)) = set (set_of b)
    \<and> distinct ms \<and> distinct oa \<and> distinct ob
    \<and> length ms + length oa = uniqueCount a
    \<and> length ms + length ob = uniqueCount b"
proof -
  let ?a = "toUniqueSet lower options linesA"
  let ?b = "toUniqueSet lower options linesB"
  have ka: "map fst (normalizedToOriginals ?a) = set_of ?a"
    and kb: "map fst (normalizedToOriginals ?b) = set_of ?b"
    by (rule toUniqueSet_props(1))+
  have da: "distinct (set_of ?a)" and db: "distinct (set_of ?b)"
    by (rule toUniqueSet_props(2))+
  have ua: "uniqueCount ?a = length (set_of ?a)" and ub: "uniqueCount ?b = length (set_of ?b)"
    by (rule toUniqueSet_props(5))+
  have la: "length (setIntersection (set_of ?a) (set_of ?b))
              + length (setDifference (set_of ?a) (set_of ?b)) = uniqueCount ?a"
    using length_partition[OF da] ua by simp
  have "length (setIntersection (set_of ?a) (set_of ?b))
          = length (setIntersection (set_of ?b) (set_of ?a))"
    using distinct_card[OF distinct_setIntersection, of "set_of ?a" "set_of ?b"]
          distinct_card[OF distinct_setIntersection, of "set_of ?b" "set_of ?a"]
    by (simp add: set_setIntersection Int_commute)
  then have lb: "length (setIntersection (set_of ?a) (set_of ?b))
              + length (setDifference (set_of ?b) (set_of ?a)) = uniqueCount ?b"
    using length_partition[OF db, of "set_of ?a"] ub by simp
  have sets: "set (setIntersection (set_of ?a) (set_of ?b)) = set (set_of ?a) \<inter> set (set_of ?b)"
    "set (setDifference (set_of ?a) (set_of ?b)) \<inter> set (setIntersection (set_of ?a) (set_of ?b)) = {}"
    "set (setDifference (set_of ?b) (set_of ?a)) \<inter> set (setIntersection (set_of ?a) (set_of ?b)) = {}"
    "set (setIntersection (set_of ?a) (set_of ?b)) \<union> set (setDifference (set_of ?a) (set_of ?b))
       = set (set_of ?a)"
    "set (setIntersection (set_of ?a) (set_of ?b)) \<union> set (setDifference (set_of ?b) (set_of ?a))
       = set (set_of ?b)"
    by (auto simp: set_setIntersection set_setDifference)
  show ?thesis
    unfolding Let_def ka kb
    using sets la lb distinct_setIntersection[of "set_of ?a" "set_of ?b"]
      distinct_setDifference[of "set_of ?a" "set_of ?b"]
      distinct_setDifference[of "set_of ?b" "set_of ?a"]
    by simp
qed

text \<open>
  C2. Reconciliation is symmetric under a swap of the sides. For any two key sets the
  intersection has the same elements whichever side comes first (the loop runs over the
  smaller set, so only the order of iteration can differ), and in the results of the page
  a swap of the two texts leaves the matches the same set of the same size, exchanges
  only-A with only-B and exchanges the counts of the sides.
\<close>

theorem reconcile_swap:
  "set (setIntersection a b) = set (setIntersection b a)
   \<and> set (matches (results lower options textA textB))
       = set (matches (results lower options textB textA))
   \<and> length (matches (results lower options textA textB))
       = length (matches (results lower options textB textA))
   \<and> onlyA (results lower options textA textB) = onlyB (results lower options textB textA)
   \<and> onlyB (results lower options textA textB) = onlyA (results lower options textB textA)
   \<and> aTotal (results lower options textA textB) = bTotal (results lower options textB textA)
   \<and> aUnique (results lower options textA textB) = bUnique (results lower options textB textA)"
proof -
  let ?a = "set_of (toUniqueSet lower options (splitLines textA))"
  let ?b = "set_of (toUniqueSet lower options (splitLines textB))"
  have s: "set (setIntersection x y) = set (setIntersection y x)" for x y :: "'b list"
    by (simp add: set_setIntersection Int_commute)
  have "length (setIntersection ?a ?b) = length (setIntersection ?b ?a)"
    using distinct_card[OF distinct_setIntersection, of ?a ?b]
          distinct_card[OF distinct_setIntersection, of ?b ?a]
    by (simp add: set_setIntersection Int_commute)
  then show ?thesis using s[of a b] s[of ?a ?b] by (simp add: results_def Let_def)
qed

text \<open>
  C3. \<open>normalizeLine\<close> is idempotent for every input string and every options value. The
  built-in \<open>toLowerCase\<close> enters as \<open>lower\<close> with the three facts of it that the
  composition needs: it is idempotent, it produces no non-breaking space from a string
  without one, and it keeps a string without white space at its ends free of it.
\<close>

theorem normalizeLine_idempotent:
  assumes "\<And>s. lower (lower s) = lower s"
    and "\<And>s. 160 \<notin> set s \<Longrightarrow> 160 \<notin> set (lower s)"
    and "\<And>s. str_trim s = s \<Longrightarrow> str_trim (lower s) = lower s"
  shows "normalizeLine lower options (normalizeLine lower options x) = normalizeLine lower options x"
  using assms by (rule normalizeLine_idem_gen)

theorem normalizeLine_idempotent_witness:
  "normalizeLine toLowerCase \<lparr>trim = True, caseInsensitive = True\<rparr>
     (normalizeLine toLowerCase \<lparr>trim = True, caseInsensitive = True\<rparr> (js '' Acme Inc ''))
   = normalizeLine toLowerCase \<lparr>trim = True, caseInsensitive = True\<rparr> (js '' Acme Inc '')
   \<and> normalizeLine toLowerCase \<lparr>trim = True, caseInsensitive = True\<rparr> (js '' Acme Inc '')
       = js ''acme inc''"
proof -
  have "normalizeLine toLowerCase \<lparr>trim = True, caseInsensitive = True\<rparr> (js '' Acme Inc '')
          = js ''acme inc''"
    by (simp add: eval_defs)
  then show ?thesis
    using normalizeLine_idempotent[of toLowerCase "\<lparr>trim = True, caseInsensitive = True\<rparr>"
        "js '' Acme Inc ''", OF toLowerCase_idem toLowerCase_nbsp toLowerCase_trim_fixed]
    by simp
qed

text \<open>
  C4. The end-to-end scenario: side A = Acme Inc, Acme Inc, Globex and side B = acme inc,
  Initech with trim and caseInsensitive set give aTotal = 3, aUnique = 2, bTotal = 2,
  bUnique = 2, matches = {acme inc}, onlyA = {globex} and onlyB = {initech}; the same
  holds for the results of the page on the two texts with one name per line.
\<close>

theorem end_to_end_scenario:
  "toUniqueSet toLowerCase \<lparr>trim = True, caseInsensitive = True\<rparr>
      [js ''Acme Inc'', js ''Acme Inc'', js ''Globex'']
     = \<lparr>set_of = [js ''acme inc'', js ''globex''],
        normalizedToOriginals =
          [(js ''acme inc'', [js ''Acme Inc'', js ''Acme Inc'']), (js ''globex'', [js ''Globex''])],
        totalCount = 3, uniqueCount = 2\<rparr>
   \<and> toUniqueSet toLowerCase \<lparr>trim = True, caseInsensitive = True\<rparr>
      [js ''acme inc'', js ''Initech'']
     = \<lparr>set_of = [js ''acme inc'', js ''initech''],
        normalizedToOriginals =
          [(js ''acme inc'', [js ''acme inc'']), (js ''initech'', [js ''Initech''])],
        totalCount = 2, uniqueCount = 2\<rparr>
   \<and> setIntersection [js ''acme inc'', js ''globex''] [js ''acme inc'', js ''initech'']
     = [js ''acme inc'']
   \<and> setDifference [js ''acme inc'', js ''globex''] [js ''acme inc'', js ''initech'']
     = [js ''globex'']
   \<and> setDifference [js ''acme inc'', js ''initech''] [js ''acme inc'', js ''globex'']
     = [js ''initech'']
   \<and> results toLowerCase \<lparr>trim = True, caseInsensitive = True\<rparr>
       (js ''Acme Inc'' @ [10] @ js ''Acme Inc'' @ [10] @ js ''Globex'')
       (js ''acme inc'' @ [10] @ js ''Initech'')
     = \<lparr>aTotal = 3, bTotal = 2, aUnique = 2, bUnique = 2,
        matches = [js ''acme inc''], onlyA = [js ''globex''], onlyB = [js ''initech'']\<rparr>"
  by (simp add: eval_defs)

text \<open>
  C5. The name set of \<open>toUniqueSet\<close>, for any lines and options: the unique count is the
  number of distinct non-empty normalized keys, which is the number of entries of the
  originals map, whose keys are the set; the total count is at least the unique count
  and is the number of lines with a non-empty normalization, duplicates counted; and a key
  that is present is non-empty, with a non-empty list of originals that keeps the order of
  the input.
\<close>

theorem toUniqueSet_invariants:
  "let u = toUniqueSet lower options lines in
     uniqueCount u = card (normalizeLine lower options ` set lines - {[]})
   \<and> uniqueCount u = length (normalizedToOriginals u)
   \<and> map fst (normalizedToOriginals u) = set_of u
   \<and> distinct (set_of u)
   \<and> uniqueCount u \<le> totalCount u
   \<and> totalCount u = length (filter (\<lambda>l. normalizeLine lower options l \<noteq> []) lines)
   \<and> (Map_get (normalizedToOriginals u) k = Some os
        \<longrightarrow> k \<noteq> [] \<and> os \<noteq> [] \<and> subseq os lines)"
proof -
  let ?u = "toUniqueSet lower options lines"
  let ?N = "normalizeLine lower options"
  note p = toUniqueSet_props[of lower options lines]
  have keys: "map fst (normalizedToOriginals ?u) = set_of ?u" by (rule p(1))
  have d: "distinct (set_of ?u)" by (rule p(2))
  have c: "uniqueCount ?u = card (?N ` set lines - {[]})"
    using distinct_card[OF d] p(3) p(5) by simp
  have l: "uniqueCount ?u = length (normalizedToOriginals ?u)"
    using p(5) keys by (metis length_map)
  have t: "totalCount ?u = length (filter (\<lambda>l. ?N l \<noteq> []) lines)" by (rule p(4))
  have "?N ` set lines - {[]} = ?N ` set (filter (\<lambda>l. ?N l \<noteq> []) lines)" by auto
  then have "card (?N ` set lines - {[]}) \<le> card (set (filter (\<lambda>l. ?N l \<noteq> []) lines))"
    by (simp add: card_image_le)
  also have "\<dots> \<le> length (filter (\<lambda>l. ?N l \<noteq> []) lines)" by (rule card_length)
  finally have le: "uniqueCount ?u \<le> totalCount ?u" using c t by simp
  have o: "k \<noteq> [] \<and> os \<noteq> [] \<and> subseq os lines"
    if h: "Map_get (normalizedToOriginals ?u) k = Some os"
  proof -
    from h p(6)[of k] have k: "k \<in> set (set_of ?u)" and os: "os = filter (\<lambda>r. ?N r = k) lines"
      by (auto split: if_splits)
    from k p(3) have "k \<noteq> []" "k \<in> ?N ` set lines" by auto
    then have "os \<noteq> []" unfolding os by (auto simp: filter_empty_conv)
    with \<open>k \<noteq> []\<close> show ?thesis unfolding os by (simp add: subseq_filter_self)
  qed
  show ?thesis unfolding Let_def using c l keys d le t o by blast
qed

theorem toUniqueSet_invariants_witness:
  "Map_get (normalizedToOriginals (toUniqueSet toLowerCase \<lparr>trim = True, caseInsensitive = True\<rparr>
        [js ''Acme Inc'', js '' '', js ''Globex'', js ''acme inc'']))
      (js ''acme inc'') = Some [js ''Acme Inc'', js ''acme inc'']
   \<and> subseq [js ''Acme Inc'', js ''acme inc'']
        [js ''Acme Inc'', js '' '', js ''Globex'', js ''acme inc'']
   \<and> uniqueCount (toUniqueSet toLowerCase \<lparr>trim = True, caseInsensitive = True\<rparr>
        [js ''Acme Inc'', js '' '', js ''Globex'', js ''acme inc'']) = 2
   \<and> totalCount (toUniqueSet toLowerCase \<lparr>trim = True, caseInsensitive = True\<rparr>
        [js ''Acme Inc'', js '' '', js ''Globex'', js ''acme inc'']) = 3"
proof -
  let ?u = "toUniqueSet toLowerCase \<lparr>trim = True, caseInsensitive = True\<rparr>
        [js ''Acme Inc'', js '' '', js ''Globex'', js ''acme inc'']"
  have h: "Map_get (normalizedToOriginals ?u) (js ''acme inc'')
             = Some [js ''Acme Inc'', js ''acme inc'']"
    by (simp add: eval_defs)
  have n: "uniqueCount ?u = 2" "totalCount ?u = 3" by (simp_all add: eval_defs)
  from toUniqueSet_invariants[of toLowerCase "\<lparr>trim = True, caseInsensitive = True\<rparr>"
      "[js ''Acme Inc'', js '' '', js ''Globex'', js ''acme inc'']" "js ''acme inc''"
      "[js ''Acme Inc'', js ''acme inc'']"] h
  have "subseq [js ''Acme Inc'', js ''acme inc'']
        [js ''Acme Inc'', js '' '', js ''Globex'', js ''acme inc'']"
    unfolding Let_def by blast
  with h n show ?thesis by blast
qed

text \<open>
  C6, as stated, fails when \<open>trim\<close> is off: a line of one space normalizes to itself, which
  is not empty, so it is counted and becomes a key.
\<close>

theorem blank_lines_counterexample:
  "allBlank [js '' '']
   \<and> totalCount (toUniqueSet toLowerCase \<lparr>trim = False, caseInsensitive = False\<rparr> [js '' '']) = 1
   \<and> uniqueCount (toUniqueSet toLowerCase \<lparr>trim = False, caseInsensitive = False\<rparr> [js '' '']) = 1"
  by (simp add: allBlank_def blankLine_def eval_defs)

text \<open>
  C6, amended. With \<open>trim\<close> set, an input whose lines are all made of white space and
  non-breaking spaces gives an empty set, an empty originals map and both counts 0; and
  for every options value the lines that normalize to the empty string are excluded from
  everything: \<open>toUniqueSet\<close> returns what it returns on the input without them. With
  \<open>trim\<close> off every non-empty line, one of white space only included, normalizes to a
  non-empty key and is kept: the key is in the set, the line is among the originals of the
  key, and both counts are positive. The built-in \<open>toLowerCase\<close> enters as \<open>lower\<close>; it
  maps the empty string to itself, and for the last part no other string to the empty
  string.
\<close>

theorem blank_lines_excluded:
  assumes "lower [] = []"
  shows "(trim options \<and> allBlank lines \<longrightarrow>
            toUniqueSet lower options lines
              = \<lparr>set_of = [], normalizedToOriginals = [], totalCount = 0, uniqueCount = 0\<rparr>)
       \<and> toUniqueSet lower options lines
            = toUniqueSet lower options (filter (\<lambda>l. normalizeLine lower options l \<noteq> []) lines)
       \<and> (\<not> trim options \<and> l \<in> set lines \<and> l \<noteq> [] \<and> (\<forall>s. s \<noteq> [] \<longrightarrow> lower s \<noteq> []) \<longrightarrow>
            normalizeLine lower options l \<noteq> []
            \<and> Set_has (set_of (toUniqueSet lower options lines)) (normalizeLine lower options l)
            \<and> (\<exists>os. Map_get (normalizedToOriginals (toUniqueSet lower options lines))
                       (normalizeLine lower options l) = Some os \<and> l \<in> set os)
            \<and> 0 < totalCount (toUniqueSet lower options lines)
            \<and> 0 < uniqueCount (toUniqueSet lower options lines))"
proof -
  let ?f = "toUniqueSet_step lower options"
  let ?N = "normalizeLine lower options"
  let ?u = "toUniqueSet lower options lines"
  have skip: "fold ?f xs st = fold ?f (filter (\<lambda>l. ?N l \<noteq> []) xs) st"
    for xs st
  proof (induction xs arbitrary: st)
    case Nil
    show ?case by simp
  next
    case (Cons x xs)
    show ?case
    proof (cases "?N x = []")
      case True
      then have "?f x st = st" by (cases st) (simp add: toUniqueSet_step_def)
      with True Cons show ?thesis by simp
    next
      case False
      with Cons show ?thesis by simp
    qed
  qed
  have 2: "?u = toUniqueSet lower options (filter (\<lambda>l. ?N l \<noteq> []) lines)"
    unfolding toUniqueSet_def using skip[of lines "([], [], 0)"] by simp
  have 1: "?u = \<lparr>set_of = [], normalizedToOriginals = [], totalCount = 0, uniqueCount = 0\<rparr>"
    if t: "trim options" and b: "allBlank lines"
  proof -
    have "?N l = []" if "l \<in> set lines" for l
      using b that t assms blank_normalize[of l options lower]
      by (simp add: allBlank_def blankLine_def list_all_iff)
    then have "filter (\<lambda>l. ?N l \<noteq> []) lines = []"
      by (simp add: filter_empty_conv)
    with 2 show ?thesis by (simp add: toUniqueSet_def Set_size_def)
  qed
  have 3: "?N l \<noteq> [] \<and> Set_has (set_of ?u) (?N l)
            \<and> (\<exists>os. Map_get (normalizedToOriginals ?u) (?N l) = Some os \<and> l \<in> set os)
            \<and> 0 < totalCount ?u \<and> 0 < uniqueCount ?u"
    if nt: "\<not> trim options" and l: "l \<in> set lines" "l \<noteq> []"
      and lw: "\<forall>s. s \<noteq> [] \<longrightarrow> lower s \<noteq> []"
  proof -
    note p = toUniqueSet_props[of lower options lines]
    have k: "?N l \<noteq> []" using nt l(2) lw by (rule normalize_untrimmed_nonempty)
    with l(1) have mem: "?N l \<in> set (set_of ?u)" unfolding p(3) by simp
    then have has: "Set_has (set_of ?u) (?N l)" by (simp add: Set_has_def)
    have "Map_get (normalizedToOriginals ?u) (?N l) = Some (filter (\<lambda>r. ?N r = ?N l) lines)"
      using p(6)[of "?N l"] mem by simp
    moreover have "l \<in> set (filter (\<lambda>r. ?N r = ?N l) lines)" using l(1) by simp
    ultimately have os: "\<exists>os. Map_get (normalizedToOriginals ?u) (?N l) = Some os \<and> l \<in> set os"
      by blast
    have "l \<in> set (filter (\<lambda>l. ?N l \<noteq> []) lines)" using l(1) k by simp
    then have "filter (\<lambda>l. ?N l \<noteq> []) lines \<noteq> []"
      by (metis empty_iff list.set(1))
    then have tc: "0 < totalCount ?u" unfolding p(4) by simp
    from mem have "set_of ?u \<noteq> []" by (metis empty_iff list.set(1))
    then have uc: "0 < uniqueCount ?u" unfolding p(5) by simp
    from k has os tc uc show ?thesis by blast
  qed
  from 1 2 3 show ?thesis by blast
qed

theorem blank_lines_excluded_witness:
  "toLowerCase [] = [] \<and> trim \<lparr>trim = True, caseInsensitive = True\<rparr>
   \<and> allBlank [js '' '', [160, 9], []]
   \<and> toUniqueSet toLowerCase \<lparr>trim = True, caseInsensitive = True\<rparr> [js '' '', [160, 9], []]
       = \<lparr>set_of = [], normalizedToOriginals = [], totalCount = 0, uniqueCount = 0\<rparr>
   \<and> \<not> trim \<lparr>trim = False, caseInsensitive = True\<rparr>
   \<and> js '' '' \<in> set [js ''Acme'', js '' '']
   \<and> js '' '' \<noteq> []
   \<and> normalizeLine toLowerCase \<lparr>trim = False, caseInsensitive = True\<rparr> (js '' '') \<noteq> []
   \<and> Set_has (set_of (toUniqueSet toLowerCase \<lparr>trim = False, caseInsensitive = True\<rparr>
          [js ''Acme'', js '' '']))
        (normalizeLine toLowerCase \<lparr>trim = False, caseInsensitive = True\<rparr> (js '' ''))
   \<and> 0 < totalCount (toUniqueSet toLowerCase \<lparr>trim = False, caseInsensitive = True\<rparr>
          [js ''Acme'', js '' ''])"
proof -
  have l: "toLowerCase [] = []" by (rule toLowerCase_Nil)
  have b: "allBlank [js '' '', [160, 9], []]"
    by (simp add: allBlank_def blankLine_def isStrWhiteSpaceChar_def js_simps)
  have t: "trim \<lparr>trim = True, caseInsensitive = True\<rparr>" by simp
  have nt: "\<not> trim \<lparr>trim = False, caseInsensitive = True\<rparr>" by simp
  have n: "\<forall>s. s \<noteq> [] \<longrightarrow> toLowerCase s \<noteq> []"
    using toLowerCase_nonempty by blast
  have m1: "js '' '' \<in> set [js ''Acme'', js '' '']" by simp
  have m2: "js '' '' \<noteq> []" by (simp add: js_simps)
  note on = blank_lines_excluded[of toLowerCase "\<lparr>trim = True, caseInsensitive = True\<rparr>"
      "[js '' '', [160, 9], []]" "[]", OF l, THEN conjunct1, THEN mp, OF conjI[OF t b]]
  note off = blank_lines_excluded[of toLowerCase "\<lparr>trim = False, caseInsensitive = True\<rparr>"
      "[js ''Acme'', js '' '']" "js '' ''", OF l, THEN conjunct2, THEN conjunct2, THEN mp,
      OF conjI[OF nt conjI[OF m1 conjI[OF m2 n]]]]
  note o1 = off[THEN conjunct1]
  note o2 = off[THEN conjunct2, THEN conjunct1]
  note o3 = off[THEN conjunct2, THEN conjunct2, THEN conjunct2, THEN conjunct1]
  show ?thesis
    by (intro conjI) (rule l t b on nt m1 m2 o1 o2 o3)+
qed

text \<open>
  C7. \<open>resolveFilterReference\<close> follows the three-level rule. When a literal \<open>filters/\<close>
  is followed by a digit, it returns the maximal run of digits after the first such
  occurrence; otherwise, when \<open>filter_id=\<close> is followed by a digit, the maximal run of
  digits after the first such occurrence; otherwise the first maximal run of digits
  anywhere in the string; one of the cases applies whenever the string has a digit. It
  fails exactly when the string has no digit, and then with \<open>InvalidReferenceError\<close>; what
  it returns is a non-empty run of digits of the string that no digit follows. On the three
  reference strings of the specification it gives 12345, 67890 and 11111.
\<close>

theorem resolveFilterReference_extracts:
  "resolveFilterReference ''https://x/filters/12345'' = Inr ''12345''
   \<and> resolveFilterReference ''https://x/organizations?filter_id=67890'' = Inr ''67890''
   \<and> resolveFilterReference ''https://x/filters/11111?view=list'' = Inr ''11111''
   \<and> (firstDigitsAt ''filters/'' r i \<longrightarrow>
         resolveFilterReference r
           = Inr (takeWhile isDigit (drop (i + length ''filters/'') r)))
   \<and> (noDigitsAfter ''filters/'' r \<and> firstDigitsAt ''filter_id='' r i \<longrightarrow>
         resolveFilterReference r
           = Inr (takeWhile isDigit (drop (i + length ''filter_id='') r)))
   \<and> (noDigitsAfter ''filters/'' r \<and> noDigitsAfter ''filter_id='' r \<and> firstDigitsAt [] r i \<longrightarrow>
         resolveFilterReference r = Inr (takeWhile isDigit (drop i r)))
   \<and> (\<not> noDigitsAfter lit r \<longrightarrow> (\<exists>j. firstDigitsAt lit r j))
   \<and> (noDigitsAfter [] r \<longleftrightarrow> \<not> list_ex isDigit r)
   \<and> ((\<exists>e. resolveFilterReference r = Inl e) \<longleftrightarrow> \<not> list_ex isDigit r)
   \<and> (resolveFilterReference r = Inl e \<longrightarrow> e = InvalidReferenceError)
   \<and> (resolveFilterReference r = Inr d \<longrightarrow>
         d \<noteq> [] \<and> list_all isDigit d
         \<and> (\<exists>pre post. r = pre @ d @ post \<and> (post = [] \<or> \<not> isDigit (hd post))))"
proof -
  have 1: "resolveFilterReference ''https://x/filters/12345'' = Inr ''12345''"
    by (simp add: resolveFilterReference_def isDigit_def)
  have 2: "resolveFilterReference ''https://x/organizations?filter_id=67890'' = Inr ''67890''"
    by (simp add: resolveFilterReference_def isDigit_def)
  have 3: "resolveFilterReference ''https://x/filters/11111?view=list'' = Inr ''11111''"
    by (simp add: resolveFilterReference_def isDigit_def)
  have a: "resolveFilterReference r = Inr (takeWhile isDigit (drop (i + length ''filters/'') r))"
    if "firstDigitsAt ''filters/'' r i"
    using digitRunAfter_firstDigitsAt[OF that] by (simp add: resolveFilterReference_def)
  have b: "resolveFilterReference r = Inr (takeWhile isDigit (drop (i + length ''filter_id='') r))"
    if "noDigitsAfter ''filters/'' r" "firstDigitsAt ''filter_id='' r i"
    using digitRunAfter_noDigitsAfter[OF that(1)] digitRunAfter_firstDigitsAt[OF that(2)]
    by (simp add: resolveFilterReference_def)
  have c: "resolveFilterReference r = Inr (takeWhile isDigit (drop i r))"
    if "noDigitsAfter ''filters/'' r" "noDigitsAfter ''filter_id='' r" "firstDigitsAt [] r i"
    using digitRunAfter_noDigitsAfter[OF that(1)] digitRunAfter_noDigitsAfter[OF that(2)]
      digitRunAfter_firstDigitsAt[OF that(3)]
    by (simp add: resolveFilterReference_def)
  have x: "\<not> noDigitsAfter lit r \<longrightarrow> (\<exists>j. firstDigitsAt lit r j)"
    using firstDigitsAt_exists[of lit r] by blast
  have n: "noDigitsAfter [] r \<longleftrightarrow> \<not> list_ex isDigit r" by (rule noDigitsAfter_Nil_iff)
  have 4: "(\<exists>e. resolveFilterReference r = Inl e) \<longleftrightarrow> \<not> list_ex isDigit r"
    using resolve_fails_iff[of r] by (auto simp: list_ex_iff)
  have 5: "resolveFilterReference r = Inl e \<longrightarrow> e = InvalidReferenceError"
    using resolve_fails_iff[of r e] by blast
  have 6: "d \<noteq> [] \<and> list_all isDigit d
         \<and> (\<exists>pre post. r = pre @ d @ post \<and> (post = [] \<or> \<not> isDigit (hd post)))"
    if h: "resolveFilterReference r = Inr d"
  proof -
    from h obtain lit where "digitRunAfter lit r = Some d"
      by (auto simp: resolveFilterReference_def split: option.splits)
    from digitRunAfter_Some[OF this] obtain pre post where
      d: "d \<noteq> []" "list_all isDigit d" and r: "r = pre @ lit @ d @ post"
      and p: "post = [] \<or> \<not> isDigit (hd post)" by blast
    from r have "r = (pre @ lit) @ d @ post" by simp
    with d p show ?thesis by blast
  qed
  have fa: "firstDigitsAt ''filters/'' r i \<longrightarrow>
         resolveFilterReference r
           = Inr (takeWhile isDigit (drop (i + length ''filters/'') r))" using a by blast
  from b have fb: "noDigitsAfter ''filters/'' r \<and> firstDigitsAt ''filter_id='' r i \<longrightarrow>
         resolveFilterReference r
           = Inr (takeWhile isDigit (drop (i + length ''filter_id='') r))" by blast
  from c have fc: "noDigitsAfter ''filters/'' r \<and> noDigitsAfter ''filter_id='' r
         \<and> firstDigitsAt [] r i \<longrightarrow>
         resolveFilterReference r = Inr (takeWhile isDigit (drop i r))" by blast
  have f6: "resolveFilterReference r = Inr d \<longrightarrow>
         d \<noteq> [] \<and> list_all isDigit d
         \<and> (\<exists>pre post. r = pre @ d @ post \<and> (post = [] \<or> \<not> isDigit (hd post)))"
    using 6 by blast
  show ?thesis
    by (intro conjI) (rule 1 2 3 fa fb fc x n 4 5 f6)+
qed

theorem resolveFilterReference_extracts_witness:
  "\<not> list_ex isDigit ''https://x/filters''
   \<and> resolveFilterReference ''https://x/filters'' = Inl InvalidReferenceError
   \<and> noDigitsAfter ''filters/'' ''https://x/v2/organizations?filter_id=67890''
   \<and> firstDigitsAt ''filter_id='' ''https://x/v2/organizations?filter_id=67890'' 27
   \<and> resolveFilterReference ''https://x/v2/organizations?filter_id=67890'' = Inr ''67890''
   \<and> firstDigitsAt ''filters/'' ''https://x/v2/filters/12345?filter_id=9'' 13
   \<and> resolveFilterReference ''https://x/v2/filters/12345?filter_id=9'' = Inr ''12345''
   \<and> list_all isDigit ''12345''"
proof -
  have n: "\<not> list_ex isDigit ''https://x/filters''" by (simp add: isDigit_def)
  have h1: "noDigitsAfter ''filters/'' ''https://x/v2/organizations?filter_id=67890''"
    by code_simp
  have h2: "firstDigitsAt ''filter_id='' ''https://x/v2/organizations?filter_id=67890'' 27"
    by code_simp
  have h3: "firstDigitsAt ''filters/'' ''https://x/v2/filters/12345?filter_id=9'' 13"
    by code_simp
  note fails = resolveFilterReference_extracts[of "''https://x/filters''",
      THEN conjunct2, THEN conjunct2, THEN conjunct2, THEN conjunct2, THEN conjunct2,
      THEN conjunct2, THEN conjunct2, THEN conjunct2, THEN conjunct1, THEN iffD2, OF n]
  then obtain e where e: "resolveFilterReference ''https://x/filters'' = Inl e" ..
  note kind = resolveFilterReference_extracts[of "''https://x/filters''" _ _ e,
      THEN conjunct2, THEN conjunct2, THEN conjunct2, THEN conjunct2, THEN conjunct2,
      THEN conjunct2, THEN conjunct2, THEN conjunct2, THEN conjunct2, THEN conjunct1,
      THEN mp, OF e]
  from e kind have f: "resolveFilterReference ''https://x/filters'' = Inl InvalidReferenceError"
    by simp
  note byparam = resolveFilterReference_extracts[
      of "''https://x/v2/organizations?filter_id=67890''" 27,
      THEN conjunct2, THEN conjunct2, THEN conjunct2, THEN conjunct2, THEN conjunct1,
      THEN mp, OF conjI[OF h1 h2]]
  then have q: "resolveFilterReference ''https://x/v2/organizations?filter_id=67890'' = Inr ''67890''"
    by (simp add: isDigit_def)
  note bypath = resolveFilterReference_extracts[
      of "''https://x/v2/filters/12345?filter_id=9''" 13,
      THEN conjunct2, THEN conjunct2, THEN conjunct2, THEN conjunct1, THEN mp, OF h3]
  then have p: "resolveFilterReference ''https://x/v2/filters/12345?filter_id=9'' = Inr ''12345''"
    by (simp add: isDigit_def)
  note shape = resolveFilterReference_extracts[
      of "''https://x/v2/filters/12345?filter_id=9''" _ _ _ "''12345''",
      THEN conjunct2, THEN conjunct2, THEN conjunct2, THEN conjunct2, THEN conjunct2,
      THEN conjunct2, THEN conjunct2, THEN conjunct2, THEN conjunct2, THEN conjunct2,
      THEN mp, OF p, THEN conjunct2, THEN conjunct1]
  show ?thesis
    by (intro conjI) (rule n f h1 h2 q h3 p shape)+
qed

text \<open>
  C8. Cache idempotence of \<open>runMatching\<close>. When a call without \<open>forceRefresh\<close> returns a
  summary for a filter identity (a filter id or the no-filter identity \<open>None\<close>), at a
  wall-clock time that no stored summary is later than, the next call without
  \<open>forceRefresh\<close> on the state it left returns the identical summary with
  \<open>fromCache = True\<close> and leaves the state unchanged, whatever the clock and the
  collaborators are by then.
\<close>

theorem runMatching_cache_idempotent:
  assumes "cacheNotAfter (snd st) now"
    and "runMatching recompute now st fid False = Inr ((s1, fc1), st1)"
  shows "runMatching recompute' now' st1 fid False = Inr ((s1, True), st1)"
  using assms by (rule runMatching_twice)

theorem runMatching_cache_idempotent_witness:
  "cacheNotAfter [] 5
   \<and> runMatching (\<lambda>fid reg. Inr (\<lparr>rc_filterName = Some ''Key accounts'', rc_sideA = 3, rc_sideB = 2,
          rc_matches = 1, rc_onlyA = 1, rc_onlyB = 1\<rparr>, reg)) 5 ((), []) (Some ''12345'') False
      = Inr ((\<lparr>filterId = Some ''12345'', filterName = Some ''Key accounts'', sideACount = 3,
               sideBCount = 2, matchCount = 1, onlyACount = 1, onlyBCount = 1, computedAt = 5\<rparr>, False),
             ((), [\<lparr>filterId = Some ''12345'', filterName = Some ''Key accounts'', sideACount = 3,
               sideBCount = 2, matchCount = 1, onlyACount = 1, onlyBCount = 1, computedAt = 5\<rparr>]))
   \<and> runMatching (\<lambda>fid reg. Inl ExternalFetchError) 9
        ((), [\<lparr>filterId = Some ''12345'', filterName = Some ''Key accounts'', sideACount = 3,
               sideBCount = 2, matchCount = 1, onlyACount = 1, onlyBCount = 1, computedAt = 5\<rparr>])
        (Some ''12345'') False
      = Inr ((\<lparr>filterId = Some ''12345'', filterName = Some ''Key accounts'', sideACount = 3,
               sideBCount = 2, matchCount = 1, onlyACount = 1, onlyBCount = 1, computedAt = 5\<rparr>, True),
             ((), [\<lparr>filterId = Some ''12345'', filterName = Some ''Key accounts'', sideACount = 3,
               sideBCount = 2, matchCount = 1, onlyACount = 1, onlyBCount = 1, computedAt = 5\<rparr>]))"
proof -
  let ?rc = "\<lambda>(fid::string option) (reg::unit). (Inr (\<lparr>rc_filterName = Some ''Key accounts'',
          rc_sideA = 3, rc_sideB = 2, rc_matches = 1, rc_onlyA = 1, rc_onlyB = 1\<rparr>, reg)
          :: error + ReconcileCounts \<times> unit)"
  let ?s = "\<lparr>filterId = Some ''12345'', filterName = Some ''Key accounts'', sideACount = 3,
               sideBCount = 2, matchCount = 1, onlyACount = 1, onlyBCount = 1, computedAt = 5\<rparr>"
  have m: "cacheNotAfter (snd ((), [])) 5" by (simp add: cacheNotAfter_def)
  have f: "runMatching ?rc 5 ((), []) (Some ''12345'') False = Inr ((?s, False), ((), [?s]))"
    by (simp add: runMatching_def getLatest_def put_def Let_def)
  from runMatching_cache_idempotent[OF m f, of "\<lambda>fid reg. Inl ExternalFetchError" 9] m f
  show ?thesis by simp
qed

text \<open>
  C9. The cache read of the matching route. When no row of the table belongs to the
  requested filter identity the answer is the no-data answer; when some row does, the
  answer is built from a row of that identity whose \<open>created_at\<close> no row of the identity
  exceeds, so never from an older row when a newer one exists.
\<close>

theorem cache_read_most_recent:
  "(\<not> list_ex (where_filter fid) rows \<longrightarrow>
      GET_matching (Table rows) fid
        = Inr \<lparr>running = 0, notActive = 0, filterId_of = fid, filterName_of = None,
               hasData = False, lastUpdated = None\<rparr>)
   \<and> (r \<in> set rows \<and> where_filter fid r \<longrightarrow>
        (\<exists>row. row \<in> set rows \<and> where_filter fid row
           \<and> created_at r \<le> created_at row
           \<and> list_all (\<lambda>x. where_filter fid x \<longrightarrow> created_at x \<le> created_at row) rows
           \<and> GET_matching (Table rows) fid
               = Inr \<lparr>running = (case matching_companies row of None \<Rightarrow> 0 | Some n \<Rightarrow> n),
                      notActive = (case non_matching_pipedrive row of None \<Rightarrow> 0 | Some n \<Rightarrow> n),
                      filterId_of = fid, filterName_of = filter_name row,
                      hasData = True, lastUpdated = Some (created_at row)\<rparr>))"
proof -
  have 1: "GET_matching (Table rows) fid
        = Inr \<lparr>running = 0, notActive = 0, filterId_of = fid, filterName_of = None,
               hasData = False, lastUpdated = None\<rparr>"
    if "\<not> list_ex (where_filter fid) rows"
  proof -
    from that have "filter (where_filter fid) rows = []"
      by (simp add: list_ex_iff filter_empty_conv)
    then have "db_get fid rows = None" by (simp add: db_get_None)
    then show ?thesis by (simp add: GET_matching_def)
  qed
  have 2: "\<exists>row. row \<in> set rows \<and> where_filter fid row
           \<and> created_at r \<le> created_at row
           \<and> list_all (\<lambda>x. where_filter fid x \<longrightarrow> created_at x \<le> created_at row) rows
           \<and> GET_matching (Table rows) fid
               = Inr \<lparr>running = (case matching_companies row of None \<Rightarrow> 0 | Some n \<Rightarrow> n),
                      notActive = (case non_matching_pipedrive row of None \<Rightarrow> 0 | Some n \<Rightarrow> n),
                      filterId_of = fid, filterName_of = filter_name row,
                      hasData = True, lastUpdated = Some (created_at row)\<rparr>"
    if "r \<in> set rows" "where_filter fid r"
  proof -
    from that have "filter (where_filter fid) rows \<noteq> []"
      by (auto simp: filter_empty_conv)
    then obtain row where g: "db_get fid rows = Some row"
      using db_get_None[of fid rows] by (cases "db_get fid rows") auto
    from db_get_Some[OF g] have a: "row \<in> set rows" "where_filter fid row"
      and b: "\<forall>x\<in>set rows. where_filter fid x \<longrightarrow> created_at x \<le> created_at row"
      by blast+
    from b that have c: "created_at r \<le> created_at row" by blast
    from b have d: "list_all (\<lambda>x. where_filter fid x \<longrightarrow> created_at x \<le> created_at row) rows"
      by (simp add: list_all_iff)
    have "GET_matching (Table rows) fid
               = Inr \<lparr>running = (case matching_companies row of None \<Rightarrow> 0 | Some n \<Rightarrow> n),
                      notActive = (case non_matching_pipedrive row of None \<Rightarrow> 0 | Some n \<Rightarrow> n),
                      filterId_of = fid, filterName_of = filter_name row,
                      hasData = True, lastUpdated = Some (created_at row)\<rparr>"
      using g by (simp add: GET_matching_def)
    with a c d show ?thesis by blast
  qed
  from 1 2 show ?thesis by blast
qed

theorem cache_read_most_recent_witness:
  "\<lparr>filter_id = Some (js ''7''), filter_name = Some (js ''Key''), matching_companies = Some 4,
      non_matching_pipedrive = Some 6, created_at = 1\<rparr>
     \<in> set [\<lparr>filter_id = Some (js ''7''), filter_name = Some (js ''Key''), matching_companies = Some 4,
                non_matching_pipedrive = Some 6, created_at = (1::nat)\<rparr>,
              \<lparr>filter_id = Some (js ''7''), filter_name = Some (js ''Key''), matching_companies = Some 5,
                non_matching_pipedrive = None, created_at = 5\<rparr>,
              \<lparr>filter_id = None, filter_name = None, matching_companies = Some 8,
                non_matching_pipedrive = Some 2, created_at = 9\<rparr>]
   \<and> where_filter (Some (js ''7''))
        \<lparr>filter_id = Some (js ''7''), filter_name = Some (js ''Key''), matching_companies = Some 4,
           non_matching_pipedrive = Some 6, created_at = (1::nat)\<rparr>
   \<and> GET_matching
        (Table [\<lparr>filter_id = Some (js ''7''), filter_name = Some (js ''Key''), matching_companies = Some 4,
                  non_matching_pipedrive = Some 6, created_at = (1::nat)\<rparr>,
                \<lparr>filter_id = Some (js ''7''), filter_name = Some (js ''Key''), matching_companies = Some 5,
                  non_matching_pipedrive = None, created_at = 5\<rparr>,
                \<lparr>filter_id = None, filter_name = None, matching_companies = Some 8,
                  non_matching_pipedrive = Some 2, created_at = 9\<rparr>])
        (Some (js ''7''))
       = Inr \<lparr>running = 5, notActive = 0, filterId_of = Some (js ''7''),
              filterName_of = Some (js ''Key''), hasData = True, lastUpdated = Some 5\<rparr>"
  using cache_read_most_recent[of "Some (js ''7'')"
      "[\<lparr>filter_id = Some (js ''7''), filter_name = Some (js ''Key''), matching_companies = Some 4,
          non_matching_pipedrive = Some 6, created_at = (1::nat)\<rparr>,
        \<lparr>filter_id = Some (js ''7''), filter_name = Some (js ''Key''), matching_companies = Some 5,
          non_matching_pipedrive = None, created_at = 5\<rparr>,
        \<lparr>filter_id = None, filter_name = None, matching_companies = Some 8,
          non_matching_pipedrive = Some 2, created_at = 9\<rparr>]"
      "\<lparr>filter_id = Some (js ''7''), filter_name = Some (js ''Key''), matching_companies = Some 4,
         non_matching_pipedrive = Some 6, created_at = (1::nat)\<rparr>"]
  by (simp add: GET_matching_def db_get_def where_filter_def js_simps)

text \<open>
  C10. In the name set of \<open>toUniqueSet\<close> the originals of a key are exactly the raw input
  lines whose normalization is that key, in input order, and no other key is present; so
  the first original of a key is the first raw line that normalizes to it, and the
  lengths of all the lists of originals add up to the total count.
\<close>

theorem originals_exact:
  "let u = toUniqueSet lower options lines in
     Map_get (normalizedToOriginals u) k =
       (if k \<noteq> [] \<and> k \<in> normalizeLine lower options ` set lines
        then Some (filter (\<lambda>raw. normalizeLine lower options raw = k) lines) else None)
   \<and> (Map_get (normalizedToOriginals u) k = Some os \<longrightarrow>
         find (\<lambda>raw. normalizeLine lower options raw = k) lines = Some (hd os))
   \<and> sum_list (map (\<lambda>p. length (snd p)) (normalizedToOriginals u)) = totalCount u"
proof -
  let ?u = "toUniqueSet lower options lines"
  let ?N = "normalizeLine lower options"
  note p = toUniqueSet_props[of lower options lines]
  have m: "k \<in> set (set_of ?u) \<longleftrightarrow> k \<noteq> [] \<and> k \<in> ?N ` set lines"
    using p(3) by auto
  have 1: "Map_get (normalizedToOriginals ?u) k =
       (if k \<noteq> [] \<and> k \<in> ?N ` set lines
        then Some (filter (\<lambda>raw. ?N raw = k) lines) else None)"
    using p(6)[of k] m by simp
  have 2: "find (\<lambda>raw. ?N raw = k) lines = Some (hd os)"
    if h: "Map_get (normalizedToOriginals ?u) k = Some os"
  proof -
    from h 1 have k: "k \<in> ?N ` set lines" and os: "os = filter (\<lambda>raw. ?N raw = k) lines"
      by (auto split: if_splits)
    from k have "filter (\<lambda>raw. ?N raw = k) lines \<noteq> []" by (auto simp: filter_empty_conv)
    from find_filter_hd[OF this] show ?thesis unfolding os .
  qed
  have 3: "sum_list (map (\<lambda>p. length (snd p)) (normalizedToOriginals ?u)) = totalCount ?u"
    by (rule p(7))
  show ?thesis unfolding Let_def using 1 2 3 by blast
qed

theorem originals_exact_witness:
  "Map_get (normalizedToOriginals (toUniqueSet toLowerCase \<lparr>trim = True, caseInsensitive = True\<rparr>
        [js ''Globex'', js ''ACME'', js '' acme'']))
      (js ''acme'') = Some [js ''ACME'', js '' acme'']
   \<and> find (\<lambda>raw. normalizeLine toLowerCase \<lparr>trim = True, caseInsensitive = True\<rparr> raw = js ''acme'')
        [js ''Globex'', js ''ACME'', js '' acme''] = Some (js ''ACME'')"
proof -
  have h: "Map_get (normalizedToOriginals (toUniqueSet toLowerCase
        \<lparr>trim = True, caseInsensitive = True\<rparr> [js ''Globex'', js ''ACME'', js '' acme'']))
      (js ''acme'') = Some [js ''ACME'', js '' acme'']"
    by (simp add: eval_defs)
  from originals_exact[of toLowerCase "\<lparr>trim = True, caseInsensitive = True\<rparr>"
      "[js ''Globex'', js ''ACME'', js '' acme'']" "js ''acme''" "[js ''ACME'', js '' acme'']"] h
  show ?thesis unfolding Let_def by simp
qed

end
